theory Spec2Isabelle
  imports Complex_Main "HOL-Library.Sublist" "HOL-Library.AList"
begin

section \<open>Data model of \<open>task_manager_app.py\<close>\<close>

text \<open>
  Python integers are \<open>int\<close>, strings are \<open>string\<close> (ASCII text), floats are
  represented by \<open>real\<close> (no property below depends on float rounding).
  Exceptions are values of \<open>exn\<close>; in psutil, \<open>ZombieProcess\<close> is a subclass of
  \<open>NoSuchProcess\<close>, so a handler for \<open>NoSuchProcess\<close> also takes \<open>ZombieProcess\<close>.
\<close>

datatype exn =
    IndexError
  | NoSuchProcess
  | AccessDenied
  | ZombieProcess
  | FileNotFoundError
  | TclError
  | OtherException string

definition is_NoSuchProcess :: "exn \<Rightarrow> bool" where
  "is_NoSuchProcess e = (e = NoSuchProcess \<or> e = ZombieProcess)"

text \<open>The handle \<open>psutil.Process(pid)\<close> stored in a table entry under \<open>'process_obj'\<close>.\<close>

datatype process_obj = Process int

text \<open>
  One raw entry of the sampler: the dict returned by \<open>process.as_dict([...])\<close>, with
  every attribute read (\<open>memory_info\<close> is kept as its \<open>rss\<close> field).
\<close>

record raw_process =
  raw_pid :: int
  raw_name :: string
  raw_status :: string
  raw_cpu_percent :: real
  raw_rss :: nat
  raw_ppid :: int

text \<open>One value of \<open>self.process_data\<close>; the key is the pid.\<close>

record process_info =
  name :: string
  status :: string
  cpu_percent :: real
  memory_mb :: real
  ppid :: int
  process_obj :: process_obj

text \<open>
  \<open>self.process_data\<close> is a Python dict: an association list in insertion order.
  \<open>d[k] = v\<close> is \<open>AList.update k v d\<close> (an existing key keeps its position, a new key
  goes to the end), \<open>k in d\<close> is \<open>map_of d k \<noteq> None\<close>, \<open>d.items()\<close> is the list itself.
\<close>

type_synonym process_table = "(int \<times> process_info) list"

text \<open>
  A Treeview item: its item id, its parent item (\<open>None\<close> for the top level \<open>""\<close>) and
  its \<open>values\<close> tuple, kept as the pid and the table entry the tuple is formatted from.
\<close>

record row =
  iid :: nat
  parent :: "nat option"
  row_pid :: int
  row_info :: process_info

datatype level = INFO | WARNING | ERROR

text \<open>
  A log message: a literal (f-string) text or a key looked up by \<open>self.translate\<close>,
  with the pid and the exception that are formatted into it.
\<close>

datatype message =
    Literal string "int option" "exn option"
  | Translate string "int option" "exn option"

datatype action = Kill | Suspend | Resume

text \<open>Calls made on the operating system, in the order they are made.\<close>

datatype os_call =
    ProcCall action process_obj
  | ExeCall process_obj
  | Startfile string
  | XdgOpen string

text \<open>Callbacks handed to \<open>self.master.after(ms, callback)\<close>.\<close>

datatype task =
    Update_system_info
  | Update_processes
  | Process_data_update "raw_process list"
  | Refresh_processes
  | Check_removable_drive
  | Cpu_label real
  | Memory_label real real real
  | Disk_label real real real
  | Removable_drive_label string

text \<open>The fields of \<open>TaskManagerApp\<close> the core reads and writes, and its collaborators'
  observable state (Treeview, selection, log sinks, timer queue, OS calls).\<close>

record app =
  process_data :: process_table
  tree_items :: "int \<rightharpoonup> nat"
  children_visible :: bool
  search_entry :: string
  tree :: "row list"
  selection :: "nat list"
  next_iid :: nat
  log :: "(level \<times> message) list"
  errors_db :: "(level \<times> message) list"
  scheduled :: "(nat \<times> task) list"
  os_calls :: "os_call list"

definition logging :: "level \<Rightarrow> message \<Rightarrow> app \<Rightarrow> app" where
  "logging lv m st = st\<lparr>log := log st @ [(lv, m)]\<rparr>"

definition log_error_to_db :: "level \<Rightarrow> message \<Rightarrow> app \<Rightarrow> app" where
  "log_error_to_db lv m st = st\<lparr>errors_db := errors_db st @ [(lv, m)]\<rparr>"

text \<open>The recurring pair \<open>logging.<level>(m); self.log_error_to_db("<LEVEL>", m)\<close>.\<close>

definition log_both :: "level \<Rightarrow> message \<Rightarrow> app \<Rightarrow> app" where
  "log_both lv m st = log_error_to_db lv m (logging lv m st)"

definition after :: "nat \<Rightarrow> task \<Rightarrow> app \<Rightarrow> app" where
  "after ms t st = st\<lparr>scheduled := scheduled st @ [(ms, t)]\<rparr>"

section \<open>Hierarchy filter and view\<close>

text \<open>\<open>str.lower()\<close> on ASCII text.\<close>

definition lower_char :: "char \<Rightarrow> char" where
  "lower_char c =
     (case map_of (zip ''ABCDEFGHIJKLMNOPQRSTUVWXYZ'' ''abcdefghijklmnopqrstuvwxyz'') c of
        Some d \<Rightarrow> d
      | None \<Rightarrow> c)"

definition lower :: "string \<Rightarrow> string" where
  "lower s = map lower_char s"

text \<open>Python's \<open>a in b\<close> on strings: \<open>a\<close> occurs in \<open>b\<close> as a contiguous substring.\<close>

fun str_in :: "string \<Rightarrow> string \<Rightarrow> bool" where
  "str_in a [] = (a = [])"
| "str_in a (c # cs) = (prefix a (c # cs) \<or> str_in a cs)"

text \<open>\<open>self.tree.insert(parent, "end", values=values)\<close>: a new item with a fresh id.\<close>

definition tree_insert :: "nat option \<Rightarrow> int \<Rightarrow> process_info \<Rightarrow> app \<Rightarrow> nat \<times> app" where
  "tree_insert par p info st =
     (next_iid st,
      st\<lparr>tree := tree st @ [\<lparr>iid = next_iid st, parent = par, row_pid = p, row_info = info\<rparr>],
         next_iid := Suc (next_iid st)\<rparr>)"

text \<open>The two statements \<open>item_id = self.tree.insert("", ...); self.tree_items[pid] = item_id\<close>.\<close>

definition insert_root :: "int \<Rightarrow> process_info \<Rightarrow> app \<Rightarrow> app" where
  "insert_root p info st =
     (case tree_insert None p info st of
        (item_id, st') \<Rightarrow> st'\<lparr>tree_items := (tree_items st')(p \<mapsto> item_id)\<rparr>)"

text \<open>
  \<open>_insert_process_to_treeview\<close>. With the data model above nothing in its \<open>try\<close> block
  raises, so the \<open>except\<close> branch has no counterpart.
\<close>

definition insert_process_to_treeview :: "int \<Rightarrow> process_info \<Rightarrow> app \<Rightarrow> app" where
  "insert_process_to_treeview p info st =
     (if ppid info = 0 \<or> map_of (process_data st) (ppid info) = None then
        insert_root p info st
      else if children_visible st then
        (case tree_items st (ppid info) of
           Some parent_item \<Rightarrow> snd (tree_insert (Some parent_item) p info st)
         | None \<Rightarrow> insert_root p info st)
      else st)"

text \<open>The loop of \<open>search_processes\<close> over \<open>self.process_data.items()\<close>.\<close>

fun search_loop :: "string \<Rightarrow> process_table \<Rightarrow> app \<Rightarrow> app" where
  "search_loop search_term [] st = st"
| "search_loop search_term ((p, info) # rest) st =
     search_loop search_term rest
       (if str_in search_term (lower (name info))
        then insert_process_to_treeview p info st else st)"

text \<open>
  \<open>search_processes\<close>: deleting every item also empties the selection (Tk drops deleted
  items from it); item ids are never reused.
\<close>

definition search_processes :: "app \<Rightarrow> app" where
  "search_processes st =
     search_loop (lower (search_entry st)) (process_data st)
       (st\<lparr>tree := [], selection := [], tree_items := Map.empty\<rparr>)"

definition refresh_processes :: "app \<Rightarrow> app" where
  "refresh_processes st = search_processes st"

definition toggle_children :: "app \<Rightarrow> app" where
  "toggle_children st = refresh_processes (st\<lparr>children_visible := \<not> children_visible st\<rparr>)"

text \<open>
  Depth of an item: the number of parent links above it. The argument list is the
  Treeview's items, newest first (a parent is always inserted before its children).
\<close>

fun item_depth :: "row list \<Rightarrow> nat \<Rightarrow> nat" where
  "item_depth [] i = 0"
| "item_depth (r # rs) i =
     (if iid r = i then (case parent r of None \<Rightarrow> 0 | Some q \<Rightarrow> Suc (item_depth rs q))
      else item_depth rs i)"

text \<open>The view as a list of (pid, record, depth) in the order the rows were emitted.\<close>

definition rendered :: "app \<Rightarrow> (int \<times> process_info \<times> nat) list" where
  "rendered st = map (\<lambda>r. (row_pid r, row_info r, item_depth (rev (tree st)) (iid r))) (tree st)"

text \<open>
  \<open>render(table, search_term, show_children)\<close> of the specification: the view that
  \<open>search_processes\<close> builds in a freshly started application holding the table, the
  search entry and the nesting toggle.
\<close>

definition init_app :: "process_table \<Rightarrow> string \<Rightarrow> bool \<Rightarrow> app" where
  "init_app tbl search_term show_children =
     \<lparr>process_data = tbl, tree_items = Map.empty, children_visible = show_children,
      search_entry = search_term, tree = [], selection = [], next_iid = 0,
      log = [], errors_db = [], scheduled = [], os_calls = []\<rparr>"

definition render :: "process_table \<Rightarrow> string \<Rightarrow> bool \<Rightarrow> (int \<times> process_info \<times> nat) list" where
  "render tbl search_term show_children =
     rendered (search_processes (init_app tbl search_term show_children))"

section \<open>Snapshot reconciler\<close>




section \<open>Process sampler and scheduler loop\<close>

text \<open>
  One enumeration by \<open>psutil.process_iter\<close>: for each process either the dict read by
  \<open>as_dict\<close> (\<open>Inr\<close>) or the exception the read raised (\<open>Inl\<close>). An exception other than
  the three caught in the loop leaves the loop for the outer handler.
\<close>

fun sample_loop ::
  "(exn + raw_process) list \<Rightarrow> raw_process list \<times> app \<Rightarrow> exn \<times> app + raw_process list \<times> app" where
  "sample_loop [] (processes, st) = Inr (processes, st)"
| "sample_loop (Inr d # rest) (processes, st) = sample_loop rest (processes @ [d], st)"
| "sample_loop (Inl e # rest) (processes, st) =
     (if e = NoSuchProcess \<or> e = AccessDenied \<or> e = ZombieProcess then
        sample_loop rest
          (processes, log_both WARNING (Literal ''Failed to get process {e}'' None (Some e)) st)
      else Inl (e, st))"

definition update_processes_thread :: "(exn + raw_process) list \<Rightarrow> app \<Rightarrow> app" where
  "update_processes_thread enumeration st =
     (case sample_loop enumeration ([], st) of
        Inr (processes, st') \<Rightarrow>
          after 2000 Update_processes (after 0 (Process_data_update processes) st')
      | Inl (e, st') \<Rightarrow>
          log_both ERROR (Literal ''Error getting process list: {e}'' None (Some e)) st')"

text \<open>\<open>update_processes\<close> starts the thread; the model runs it to completion.\<close>

definition update_processes :: "(exn + raw_process) list \<Rightarrow> app \<Rightarrow> app" where
  "update_processes enumeration st = update_processes_thread enumeration st"

text \<open>The readings of \<open>psutil.cpu_percent\<close>, \<open>virtual_memory\<close> and \<open>disk_usage('/')\<close>.\<close>

record gauges =
  g_cpu_percent :: real
  g_memory_percent :: real
  g_memory_total :: real
  g_memory_used :: real
  g_disk_percent :: real
  g_disk_total :: real
  g_disk_used :: real

text \<open>Bytes to GiB; the display rounding \<open>round(_, 1)\<close> of the float is left out.\<close>

definition gb :: "real \<Rightarrow> real" where
  "gb x = x / 1024 ^ 3"

text \<open>\<open>update_system_info\<close>: \<open>probe\<close> is \<open>Inl e\<close> when one of the three readings raises.\<close>

definition update_system_info :: "exn + gauges \<Rightarrow> app \<Rightarrow> app" where
  "update_system_info probe st =
     (case probe of
        Inr g \<Rightarrow>
          after 1000 Update_system_info
            (after 0 (Disk_label (g_disk_percent g) (gb (g_disk_used g)) (gb (g_disk_total g)))
              (after 0 (Memory_label (g_memory_percent g) (gb (g_memory_used g))
                          (gb (g_memory_total g)))
                (after 0 (Cpu_label (g_cpu_percent g)) st)))
      | Inl e \<Rightarrow> log_both ERROR (Literal ''Error updating system info: {e}'' None (Some e)) st)"

text \<open>\<open>_find_removable_drive\<close> over the (mountpoint, opts) pairs of \<open>psutil.disk_partitions()\<close>.\<close>

fun find_removable_drive :: "(string \<times> string) list \<Rightarrow> string option" where
  "find_removable_drive [] = None"
| "find_removable_drive ((mountpoint, opts) # rest) =
     (if str_in ''removable'' opts then Some mountpoint else find_removable_drive rest)"

definition check_removable_drive_thread :: "exn + (string \<times> string) list \<Rightarrow> app \<Rightarrow> app" where
  "check_removable_drive_thread partitions st =
     after 5000 Check_removable_drive
       (case partitions of
          Inr ps \<Rightarrow>
            (case find_removable_drive ps of
               Some removable_drive \<Rightarrow>
                 if removable_drive \<noteq> [] then
                   after 0 (Removable_drive_label (''Detected: '' @ removable_drive)) st
                 else after 0 (Removable_drive_label ''Not detected'') st
             | None \<Rightarrow> after 0 (Removable_drive_label ''Not detected'') st)
        | Inl e \<Rightarrow>
            after 0 (Removable_drive_label ''Error'')
              (log_both ERROR (Literal ''Error checking removable drive: {e}'' None (Some e)) st))"

definition check_removable_drive :: "exn + (string \<times> string) list \<Rightarrow> app \<Rightarrow> app" where
  "check_removable_drive partitions st = check_removable_drive_thread partitions st"

section \<open>Process control actions\<close>

text \<open>
  The operating system as the actions see it: the outcome of \<open>kill\<close>, \<open>suspend\<close> and
  \<open>resume\<close> on a handle (\<open>None\<close>: the call returns), of \<open>process.exe()\<close>, the value of
  \<open>platform.system()\<close>, and the outcome of opening the folder of an executable.
\<close>

record os_env =
  proc_op :: "action \<Rightarrow> process_obj \<Rightarrow> exn option"
  proc_exe :: "process_obj \<Rightarrow> exn + string"
  platform_system :: string
  open_dir :: "string \<Rightarrow> exn option"

text \<open>
  \<open>selected_item = self.tree.selection()[0]; pid = int(self.tree.item(selected_item,
  "values")[0])\<close>: an empty selection raises \<open>IndexError\<close>, an unknown item \<open>TclError\<close>.
\<close>

definition selected_pid :: "app \<Rightarrow> exn + int" where
  "selected_pid st =
     (case selection st of
        [] \<Rightarrow> Inl IndexError
      | selected_item # _ \<Rightarrow>
          (case find (\<lambda>r. iid r = selected_item) (tree st) of
             None \<Rightarrow> Inl TclError
           | Some r \<Rightarrow> Inr (row_pid r)))"

text \<open>
  The \<open>try\<close> block shared by \<open>kill_selected_process\<close>, \<open>suspend_selected_process\<close> and
  \<open>resume_selected_process\<close>, which differ in the operation, the text of the info line
  and the key of the last handler. An exception leaves the block with the state reached
  and with \<open>pid\<close> if it is bound by then.
\<close>

definition control_try ::
  "os_env \<Rightarrow> action \<Rightarrow> string \<Rightarrow> app \<Rightarrow> exn \<times> int option \<times> app + app" where
  "control_try os a info_text st =
     (case selected_pid st of
        Inl e \<Rightarrow> Inl (e, None, st)
      | Inr pid \<Rightarrow>
          (case map_of (process_data st) pid of
             Some info \<Rightarrow>
               (let st1 = st\<lparr>os_calls := os_calls st @ [ProcCall a (process_obj info)]\<rparr> in
                case proc_op os a (process_obj info) of
                  Some e \<Rightarrow> Inl (e, Some pid, st1)
                | None \<Rightarrow>
                    Inr (refresh_processes
                          (logging INFO (Literal info_text (Some pid) None) st1)))
           | None \<Rightarrow>
               Inr (refresh_processes
                     (log_both WARNING
                        (Literal ''Process with PID {pid} not found.'' (Some pid) None) st))))"

text \<open>
  The handlers, in the order of the \<open>except\<close> clauses. A handler that formats \<open>pid\<close>
  while it is unbound raises \<open>UnboundLocalError\<close>, which nothing catches.
\<close>

definition control_except :: "string \<Rightarrow> exn \<times> int option \<times> app \<Rightarrow> exn + app" where
  "control_except error_key x =
     (case x of (e, pid, st) \<Rightarrow>
        if e = IndexError then
          Inr (log_both WARNING (Translate ''no_process_selected'' None None) st)
        else if is_NoSuchProcess e then
          (case pid of
             None \<Rightarrow> Inl (OtherException ''UnboundLocalError'')
           | Some p \<Rightarrow>
               Inr (refresh_processes
                     (log_both WARNING (Translate ''process_not_found'' (Some p) None) st)))
        else if e = AccessDenied then
          (case pid of
             None \<Rightarrow> Inl (OtherException ''UnboundLocalError'')
           | Some p \<Rightarrow> Inr (log_both WARNING (Translate ''access_denied'' (Some p) None) st))
        else Inr (log_both ERROR (Translate error_key None (Some e)) st))"

definition control_selected_process ::
  "action \<Rightarrow> string \<Rightarrow> string \<Rightarrow> os_env \<Rightarrow> app \<Rightarrow> exn + app" where
  "control_selected_process a info_text error_key os st =
     (case control_try os a info_text st of
        Inr st' \<Rightarrow> Inr st'
      | Inl x \<Rightarrow> control_except error_key x)"

definition kill_selected_process :: "os_env \<Rightarrow> app \<Rightarrow> exn + app" where
  "kill_selected_process =
     control_selected_process Kill ''Process with PID {pid} killed.'' ''error_killing_process''"

definition suspend_selected_process :: "os_env \<Rightarrow> app \<Rightarrow> exn + app" where
  "suspend_selected_process =
     control_selected_process Suspend ''Process with PID {pid} suspended.''
       ''error_suspending_process''"

definition resume_selected_process :: "os_env \<Rightarrow> app \<Rightarrow> exn + app" where
  "resume_selected_process =
     control_selected_process Resume ''Process with PID {pid} resumed.''
       ''error_resuming_process''"

text \<open>The inner \<open>try\<close> block of \<open>open_file_location\<close> and its three handlers.\<close>

definition locate_try :: "os_env \<Rightarrow> process_info \<Rightarrow> app \<Rightarrow> exn \<times> app + app" where
  "locate_try os info st =
     (let st1 = st\<lparr>os_calls := os_calls st @ [ExeCall (process_obj info)]\<rparr> in
      case proc_exe os (process_obj info) of
        Inl e \<Rightarrow> Inl (e, st1)
      | Inr exe_path \<Rightarrow>
          if platform_system os = ''Windows'' then
            (let st2 = st1\<lparr>os_calls := os_calls st1 @ [Startfile exe_path]\<rparr> in
             case open_dir os exe_path of Some e \<Rightarrow> Inl (e, st2) | None \<Rightarrow> Inr st2)
          else if platform_system os = ''Linux'' \<or> platform_system os = ''Darwin'' then
            (let st2 = st1\<lparr>os_calls := os_calls st1 @ [XdgOpen exe_path]\<rparr> in
             case open_dir os exe_path of Some e \<Rightarrow> Inl (e, st2) | None \<Rightarrow> Inr st2)
          else
            Inr (log_both WARNING
                   (Literal ''Opening folder not supported on this OS.'' None None) st1))"

definition locate_except :: "int \<Rightarrow> exn \<times> app \<Rightarrow> app" where
  "locate_except pid x =
     (case x of (e, st) \<Rightarrow>
        if e = AccessDenied then
          log_both WARNING (Translate ''access_denied_location'' (Some pid) None) st
        else if e = FileNotFoundError then
          log_both WARNING (Translate ''file_not_found'' (Some pid) None) st
        else log_both ERROR (Translate ''error_opening_location'' None (Some e)) st)"

definition open_file_location :: "os_env \<Rightarrow> app \<Rightarrow> exn + app" where
  "open_file_location os st =
     (case selected_pid st of
        Inl e \<Rightarrow>
          if e = IndexError then
            Inr (log_both WARNING (Translate ''no_process_selected'' None None) st)
          else Inr (log_both ERROR (Translate ''general_error'' None (Some e)) st)
      | Inr pid \<Rightarrow>
          (case map_of (process_data st) pid of
             Some info \<Rightarrow>
               (case locate_try os info st of
                  Inr st' \<Rightarrow> Inr st'
                | Inl x \<Rightarrow> Inr (locate_except pid x))
           | None \<Rightarrow>
               Inr (refresh_processes
                     (log_both WARNING
                        (Literal ''Process with PID {pid} not found.'' (Some pid) None) st))))"

section \<open>Example inputs\<close>

definition proc :: "string \<Rightarrow> int \<Rightarrow> int \<Rightarrow> process_info" where
  "proc n p pp =
     \<lparr>name = n, status = ''running'', cpu_percent = 0, memory_mb = 1, ppid = pp,
      process_obj = Process p\<rparr>"


text \<open>An operating system on which every call succeeds.\<close>

definition os_ok :: os_env where
  "os_ok = \<lparr>proc_op = (\<lambda>a h. None), proc_exe = (\<lambda>h. Inr ''/usr/bin/vim''),
            platform_system = ''Linux'', open_dir = (\<lambda>d. None)\<rparr>"

text \<open>An operating system on which the process has exited, and one that denies access.\<close>

definition os_gone :: os_env where
  "os_gone = os_ok\<lparr>proc_op := (\<lambda>a h. Some NoSuchProcess)\<rparr>"

definition os_denied :: os_env where
  "os_denied = os_ok\<lparr>proc_op := (\<lambda>a h. Some AccessDenied)\<rparr>"

text \<open>The table \<open>{1: root, 2: ppid 1, 3: ppid 2}\<close> of the specification's nesting example.\<close>

definition chain_table :: process_table where
  "chain_table = [(1, proc ''init'' 1 0), (2, proc ''bash'' 2 1), (3, proc ''vim'' 3 2)]"

text \<open>A started application showing \<open>chain_table\<close> nested, with no row selected.\<close>

definition app_idle :: app where
  "app_idle = search_processes (init_app chain_table [] True)"

text \<open>The application of \<open>app_idle\<close> after the user has selected the row of pid 2.\<close>

definition app_selected :: app where
  "app_selected = app_idle\<lparr>selection := [1]\<rparr>"

text \<open>A view that is out of date: pid 99 is still shown and selected, the table is empty.\<close>

definition app_stale :: app where
  "app_stale =
     (init_app [] [] False)
       \<lparr>tree := [\<lparr>iid = 0, parent = None, row_pid = 99, row_info = proc ''gone'' 99 0\<rparr>],
        selection := [0], next_iid := 1\<rparr>"





text \<open>The state in which the loop of \<open>search_processes\<close> starts.\<close>

definition cleared :: "app \<Rightarrow> app" where
  "cleared st = st\<lparr>tree := [], selection := [], tree_items := Map.empty\<rparr>"

text \<open>
  Invariant of the view while \<open>search_processes\<close> runs. Items (newest first) have
  distinct ids and every parent is an older top-level item showing the parent pid;
  ids are below the counter; each pid is shown once; \<open>tree_items\<close> holds exactly the
  top-level items.
\<close>

fun well_nested :: "row list \<Rightarrow> bool" where
  "well_nested [] = True"
| "well_nested (r # rs) =
     (well_nested rs \<and> iid r \<notin> iid ` set rs \<and>
      (case parent r of
         None \<Rightarrow> True
       | Some q \<Rightarrow> (\<exists>r'\<in>set rs. iid r' = q \<and> parent r' = None \<and>
                       row_pid r' = ppid (row_info r))))"

definition view_inv :: "app \<Rightarrow> bool" where
  "view_inv s =
     (well_nested (rev (tree s)) \<and> (\<forall>r\<in>set (tree s). iid r < next_iid s) \<and>
      distinct (map row_pid (tree s)) \<and>
      (\<forall>p i. tree_items s p = Some i \<longleftrightarrow>
         (\<exists>r\<in>set (tree s). row_pid r = p \<and> parent r = None \<and> iid r = i)))"

text \<open>Tables with a process that is its own parent, and with two processes that are
  each other's parent.\<close>

definition self_table :: process_table where
  "self_table = [(7, proc ''loop'' 7 7)]"

definition cycle_table :: process_table where
  "cycle_table = [(5, proc ''ping'' 5 6), (6, proc ''pong'' 6 5)]"

section \<open>Frame lemmas\<close>

lemma process_data_logging [simp]:
  "process_data (logging lv m st) = process_data st"
  "process_data (log_error_to_db lv m st) = process_data st"
  "process_data (log_both lv m st) = process_data st"
  "process_data (after ms t st) = process_data st"
  by (simp_all add: logging_def log_error_to_db_def log_both_def after_def)

lemma process_data_insert [simp]:
  "process_data (insert_process_to_treeview p info st) = process_data st"
  by (simp add: insert_process_to_treeview_def insert_root_def tree_insert_def
      split: option.splits)

lemma process_data_search_loop [simp]:
  "process_data (search_loop t xs st) = process_data st"
  by (induction t xs st rule: search_loop.induct) simp_all

lemma process_data_refresh [simp]:
  "process_data (refresh_processes st) = process_data st"
  by (simp add: refresh_processes_def search_processes_def)

lemma selected_pid_raises:
  "selected_pid st = Inl e \<Longrightarrow> e = IndexError \<or> e = TclError"
  by (auto simp: selected_pid_def split: list.splits option.splits)

lemma control_returns:
  "\<exists>st'. control_selected_process a itext key os st = Inr st' \<and>
         process_data st' = process_data st"
proof (cases "selected_pid st")
  case (Inl e)
  then have "e = IndexError \<or> e = TclError" by (rule selected_pid_raises)
  with Inl show ?thesis
    by (auto simp: control_selected_process_def control_try_def control_except_def
        is_NoSuchProcess_def)
next
  case (Inr pid)
  then show ?thesis
    by (auto simp: control_selected_process_def control_try_def control_except_def Let_def
        split: option.splits)
qed

lemma locate_returns:
  "\<exists>st'. open_file_location os st = Inr st' \<and> process_data st' = process_data st"
  by (auto simp: open_file_location_def locate_try_def locate_except_def Let_def
      split: sum.splits option.splits)

section \<open>Control actions\<close>

lemma app_idle_eval:
  "process_data app_idle = chain_table"
  "tree app_idle =
     [\<lparr>iid = 0, parent = None, row_pid = 1, row_info = proc ''init'' 1 0\<rparr>,
      \<lparr>iid = 1, parent = Some 0, row_pid = 2, row_info = proc ''bash'' 2 1\<rparr>,
      \<lparr>iid = 2, parent = None, row_pid = 3, row_info = proc ''vim'' 3 2\<rparr>]"
  "selection app_idle = []"
  by (simp_all add: app_idle_def search_processes_def init_app_def chain_table_def proc_def
      insert_process_to_treeview_def insert_root_def tree_insert_def lower_def)

text \<open>
  Claim C8. Control actions never mutate the cached process table: whatever the selection,
  the table and the operating system's answers, each of kill, suspend, resume and locate
  returns with \<open>process_data\<close> (every entry of it) exactly as it was. The actions only
  append to \<open>os_calls\<close> and the log sinks and rebuild the view; a changed status becomes
  visible only when \<open>process_data_update\<close> replaces the table.
\<close>

theorem control_actions_never_mutate_table:
  "(\<exists>st'. kill_selected_process os st = Inr st' \<and> process_data st' = process_data st) \<and>
   (\<exists>st'. suspend_selected_process os st = Inr st' \<and> process_data st' = process_data st) \<and>
   (\<exists>st'. resume_selected_process os st = Inr st' \<and> process_data st' = process_data st) \<and>
   (\<exists>st'. open_file_location os st = Inr st' \<and> process_data st' = process_data st)"
  unfolding kill_selected_process_def suspend_selected_process_def resume_selected_process_def
  using control_returns locate_returns by blast

theorem control_actions_never_mutate_table_witness:
  "\<exists>st'. kill_selected_process os_ok app_selected = Inr st' \<and> process_data st' = chain_table"
  using control_actions_never_mutate_table [of os_ok app_selected]
  by (simp add: app_selected_def app_idle_eval)

text \<open>
  Claim C10. With no row selected, each of kill, suspend, resume and locate catches the
  \<open>IndexError\<close> of \<open>self.tree.selection()[0]\<close>: it returns normally, the only effect is
  one WARNING \<open>no_process_selected\<close> on both log sinks, no operating-system call is
  made, and the table, the view and the timer queue are untouched (no refresh).
\<close>

theorem empty_selection_is_handled:
  assumes "f \<in> {kill_selected_process, suspend_selected_process, resume_selected_process,
                 open_file_location}"
    and "selection st = []"
  shows "\<exists>st'. f os st = Inr st' \<and>
           st' = log_both WARNING (Translate ''no_process_selected'' None None) st \<and>
           log st' = log st @ [(WARNING, Translate ''no_process_selected'' None None)] \<and>
           os_calls st' = os_calls st \<and> process_data st' = process_data st \<and>
           tree st' = tree st \<and> tree_items st' = tree_items st \<and>
           scheduled st' = scheduled st"
  using assms
  by (auto simp: kill_selected_process_def suspend_selected_process_def
      resume_selected_process_def control_selected_process_def control_try_def
      control_except_def open_file_location_def selected_pid_def log_both_def logging_def
      log_error_to_db_def)

theorem empty_selection_is_handled_witness:
  "selection app_idle = [] \<and>
   (\<exists>st'. open_file_location os_ok app_idle = Inr st' \<and>
      log st' = [(WARNING, Translate ''no_process_selected'' None None)] \<and>
      os_calls st' = [] \<and> process_data st' = chain_table \<and> tree st' = tree app_idle)"
proof -
  have sel: "selection app_idle = []" by (rule app_idle_eval)
  have "log app_idle = []" "os_calls app_idle = []"
    by (simp_all add: app_idle_def search_processes_def init_app_def chain_table_def proc_def
        insert_process_to_treeview_def insert_root_def tree_insert_def lower_def)
  with sel empty_selection_is_handled [of open_file_location app_idle os_ok] show ?thesis
    by (auto simp: app_idle_eval)
qed

lemma control_outcomes:
  assumes "selected_pid st = Inr pid"
  shows "map_of (process_data st) pid = None \<longrightarrow>
           control_selected_process a itext key os st =
             Inr (refresh_processes
                   (log_both WARNING
                      (Literal ''Process with PID {pid} not found.'' (Some pid) None) st))"
    and "\<forall>info st1. map_of (process_data st) pid = Some info \<and>
           st1 = st\<lparr>os_calls := os_calls st @ [ProcCall a (process_obj info)]\<rparr> \<longrightarrow>
           (proc_op os a (process_obj info) = Some NoSuchProcess \<longrightarrow>
              control_selected_process a itext key os st =
                Inr (refresh_processes
                      (log_both WARNING (Translate ''process_not_found'' (Some pid) None) st1))) \<and>
           (proc_op os a (process_obj info) = Some AccessDenied \<longrightarrow>
              control_selected_process a itext key os st =
                Inr (log_both WARNING (Translate ''access_denied'' (Some pid) None) st1)) \<and>
           (proc_op os a (process_obj info) = None \<longrightarrow>
              control_selected_process a itext key os st =
                Inr (refresh_processes (logging INFO (Literal itext (Some pid) None) st1)))"
  using assms
  by (simp_all add: control_selected_process_def control_try_def control_except_def Let_def
      is_NoSuchProcess_def)

text \<open>
  Claim C7. Each of kill, suspend and resume returns normally on every outcome, and for
  the selected pid: absent from the table, it logs the WARNING "not found" and refreshes
  the view; present and the operating system raises \<open>NoSuchProcess\<close>, it logs the WARNING
  \<open>process_not_found\<close> and refreshes; the operating system raises \<open>AccessDenied\<close>, it
  logs the WARNING \<open>access_denied\<close> and does not refresh (the view is left as it was);
  the call succeeds, it logs an INFO line and refreshes at once.
\<close>

theorem control_action_outcomes:
  assumes "(a, f) \<in> {(Kill, kill_selected_process), (Suspend, suspend_selected_process),
                      (Resume, resume_selected_process)}"
  shows "(\<exists>st'. f os st = Inr st') \<and>
    (\<forall>pid. selected_pid st = Inr pid \<longrightarrow>
      (map_of (process_data st) pid = None \<longrightarrow>
         f os st =
           Inr (refresh_processes
                 (log_both WARNING
                    (Literal ''Process with PID {pid} not found.'' (Some pid) None) st))) \<and>
      (\<forall>info st1. map_of (process_data st) pid = Some info \<and>
           st1 = st\<lparr>os_calls := os_calls st @ [ProcCall a (process_obj info)]\<rparr> \<longrightarrow>
           (proc_op os a (process_obj info) = Some NoSuchProcess \<longrightarrow>
              f os st =
                Inr (refresh_processes
                      (log_both WARNING (Translate ''process_not_found'' (Some pid) None) st1))) \<and>
           (proc_op os a (process_obj info) = Some AccessDenied \<longrightarrow>
              f os st = Inr (log_both WARNING (Translate ''access_denied'' (Some pid) None) st1) \<and>
              tree (log_both WARNING (Translate ''access_denied'' (Some pid) None) st1) = tree st) \<and>
           (proc_op os a (process_obj info) = None \<longrightarrow>
              (\<exists>itext. f os st =
                Inr (refresh_processes (logging INFO (Literal itext (Some pid) None) st1))))))"
proof -
  from assms obtain itext key where f: "f = control_selected_process a itext key"
    by (auto simp: kill_selected_process_def suspend_selected_process_def
        resume_selected_process_def)
  have "\<exists>st'. control_selected_process a itext key os st = Inr st'"
    using control_returns [where a = a and itext = itext and key = key and os = os and st = st]
    by blast
  then show ?thesis
    unfolding f
    using control_outcomes [where a = a and itext = itext and key = key and os = os and st = st]
    by (auto simp: log_both_def logging_def log_error_to_db_def)
qed

lemma app_selected_eval:
  "selected_pid app_selected = Inr 2"
  "map_of (process_data app_selected) 2 = Some (proc ''bash'' 2 1)"
  "process_obj (proc ''bash'' 2 1) = Process 2"
  by (simp_all add: app_selected_def app_idle_eval selected_pid_def chain_table_def proc_def)

lemma app_stale_eval:
  "selected_pid app_stale = Inr 99"
  "map_of (process_data app_stale) 99 = None"
  by (simp_all add: app_stale_def init_app_def selected_pid_def)

theorem control_action_outcomes_witness:
  "selected_pid app_stale = Inr 99 \<and> map_of (process_data app_stale) 99 = None \<and>
   kill_selected_process os_ok app_stale =
     Inr (refresh_processes
           (log_both WARNING
              (Literal ''Process with PID {pid} not found.'' (Some 99) None) app_stale)) \<and>
   selected_pid app_selected = Inr 2 \<and>
   map_of (process_data app_selected) 2 = Some (proc ''bash'' 2 1) \<and>
   proc_op os_gone Kill (Process 2) = Some NoSuchProcess \<and>
   kill_selected_process os_gone app_selected =
     Inr (refresh_processes
           (log_both WARNING (Translate ''process_not_found'' (Some 2) None)
              (app_selected\<lparr>os_calls := os_calls app_selected @ [ProcCall Kill (Process 2)]\<rparr>))) \<and>
   proc_op os_denied Suspend (Process 2) = Some AccessDenied \<and>
   suspend_selected_process os_denied app_selected =
     Inr (log_both WARNING (Translate ''access_denied'' (Some 2) None)
           (app_selected\<lparr>os_calls := os_calls app_selected @ [ProcCall Suspend (Process 2)]\<rparr>)) \<and>
   proc_op os_ok Resume (Process 2) = None \<and>
   (\<exists>itext. resume_selected_process os_ok app_selected =
     Inr (refresh_processes
           (logging INFO (Literal itext (Some 2) None)
              (app_selected\<lparr>os_calls := os_calls app_selected @ [ProcCall Resume (Process 2)]\<rparr>))))"
proof -
  have os: "proc_op os_gone Kill (Process 2) = Some NoSuchProcess"
    "proc_op os_denied Suspend (Process 2) = Some AccessDenied"
    "proc_op os_ok Resume (Process 2) = None"
    by (simp_all add: os_gone_def os_denied_def os_ok_def)
  have "kill_selected_process os_ok app_stale =
     Inr (refresh_processes
           (log_both WARNING
              (Literal ''Process with PID {pid} not found.'' (Some 99) None) app_stale))"
    using control_action_outcomes [of Kill kill_selected_process os_ok app_stale] app_stale_eval
    by simp
  moreover have "kill_selected_process os_gone app_selected =
     Inr (refresh_processes
           (log_both WARNING (Translate ''process_not_found'' (Some 2) None)
              (app_selected\<lparr>os_calls := os_calls app_selected @ [ProcCall Kill (Process 2)]\<rparr>)))"
    using control_action_outcomes [of Kill kill_selected_process os_gone app_selected]
      app_selected_eval os
    by simp
  moreover have "suspend_selected_process os_denied app_selected =
     Inr (log_both WARNING (Translate ''access_denied'' (Some 2) None)
           (app_selected\<lparr>os_calls := os_calls app_selected @ [ProcCall Suspend (Process 2)]\<rparr>))"
    using control_action_outcomes [of Suspend suspend_selected_process os_denied app_selected]
      app_selected_eval os
    by simp
  moreover have "\<exists>itext. resume_selected_process os_ok app_selected =
     Inr (refresh_processes
           (logging INFO (Literal itext (Some 2) None)
              (app_selected\<lparr>os_calls := os_calls app_selected @ [ProcCall Resume (Process 2)]\<rparr>)))"
    using control_action_outcomes [of Resume resume_selected_process os_ok app_selected]
      app_selected_eval os
    by simp
  ultimately show ?thesis
    using app_stale_eval app_selected_eval os by simp
qed

section \<open>Sampler and scheduler\<close>




text \<open>
  Claim C3, evaluated on a failed cycle. When a gauge reading raises,
  \<open>update_system_info\<close> logs the error and adds nothing to the timer queue; when the
  process enumeration raises, \<open>_update_processes_thread\<close> does the same. Both call
  \<open>self.master.after\<close> inside the \<open>try\<close> block. \<open>_check_removable_drive_thread\<close>, which
  reschedules after its \<open>try\<close> statement, is queued again on failure.
\<close>

theorem failed_cycle_is_not_rescheduled:
  "scheduled (update_system_info (Inl e) st) = scheduled st \<and>
   log (update_system_info (Inl e) st) =
     log st @ [(ERROR, Literal ''Error updating system info: {e}'' None (Some e))] \<and>
   scheduled (update_processes_thread (Inl (OtherException x) # rest) st) = scheduled st \<and>
   scheduled (check_removable_drive_thread (Inl e) st) =
     scheduled st @ [(0, Removable_drive_label ''Error''), (5000, Check_removable_drive)]"
  by (simp add: update_system_info_def update_processes_thread_def
      check_removable_drive_thread_def log_both_def logging_def log_error_to_db_def after_def)

section \<open>Reconciler\<close>










section \<open>Search filter\<close>





lemma tree_insert_process:
  "tree (insert_process_to_treeview p info s) = tree s \<or>
   (\<exists>i par. tree (insert_process_to_treeview p info s) =
      tree s @ [\<lparr>iid = i, parent = par, row_pid = p, row_info = info\<rparr>])"
  by (auto simp: insert_process_to_treeview_def insert_root_def tree_insert_def
      split: option.splits)




section \<open>View invariant\<close>

lemma children_visible_insert [simp]:
  "children_visible (insert_process_to_treeview p info s) = children_visible s"
  by (simp add: insert_process_to_treeview_def insert_root_def tree_insert_def
      split: option.splits)

lemma children_visible_search_loop [simp]:
  "children_visible (search_loop t xs s) = children_visible s"
  by (induction t xs s rule: search_loop.induct) simp_all

lemma search_loop_append:
  "search_loop t (xs @ ys) s = search_loop t ys (search_loop t xs s)"
  by (induction t xs s rule: search_loop.induct) simp_all

lemma search_loop_prefix: "\<exists>ext. tree (search_loop t xs s) = tree s @ ext"
proof (induction xs arbitrary: s)
  case Nil
  show ?case by simp
next
  case (Cons e xs)
  obtain p info where e: "e = (p, info)" by (cases e)
  obtain ext where ext: "tree (search_loop t (e # xs) s) =
      tree (if str_in t (lower (name info)) then insert_process_to_treeview p info s else s) @ ext"
    using Cons [of "if str_in t (lower (name info)) then insert_process_to_treeview p info s else s"]
    by (auto simp: e)
  from tree_insert_process [of p info s] obtain ext' where
    "tree (if str_in t (lower (name info)) then insert_process_to_treeview p info s else s) =
       tree s @ ext'"
    by (cases "str_in t (lower (name info))") auto
  with ext show ?case by simp
qed

lemma item_depth_all_roots: "\<forall>r\<in>set rs. parent r = None \<Longrightarrow> item_depth rs i = 0"
  by (induction rs) simp_all

lemma well_nested_depth:
  "well_nested rs \<Longrightarrow> r \<in> set rs \<Longrightarrow>
     item_depth rs (iid r) = (case parent r of None \<Rightarrow> 0 | Some q \<Rightarrow> 1)"
proof (induction rs arbitrary: r)
  case Nil
  then show ?case by simp
next
  case (Cons r0 rs)
  from Cons.prems(1) have wn: "well_nested rs" and fresh: "iid r0 \<notin> iid ` set rs"
    by simp_all
  show ?case
  proof (cases "r = r0")
    case True
    show ?thesis
    proof (cases "parent r0")
      case None
      with True show ?thesis by simp
    next
      case (Some q)
      with Cons.prems(1) obtain r' where r': "r' \<in> set rs" "iid r' = q" "parent r' = None"
        by auto
      from Cons.IH [OF wn r'(1)] r' have "item_depth rs q = 0" by simp
      with True Some show ?thesis by simp
    qed
  next
    case False
    with Cons.prems(2) have in_rs: "r \<in> set rs" by simp
    with fresh have "iid r0 \<noteq> iid r" by auto
    with Cons.IH [OF wn in_rs] show ?thesis by simp
  qed
qed

lemma view_inv_cleared: "view_inv (cleared st)"
  by (simp add: view_inv_def cleared_def)

lemma view_inv_root:
  assumes "view_inv s" "p \<notin> row_pid ` set (tree s)"
  shows "view_inv (insert_root p info s)"
proof -
  let ?new = "\<lparr>iid = next_iid s, parent = None, row_pid = p, row_info = info\<rparr>"
  have t: "tree (insert_root p info s) = tree s @ [?new]"
    and n: "next_iid (insert_root p info s) = Suc (next_iid s)"
    and ti: "tree_items (insert_root p info s) = (tree_items s)(p \<mapsto> next_iid s)"
    by (simp_all add: insert_root_def tree_insert_def)
  from assms(1) have wn: "well_nested (rev (tree s))"
    and lt: "\<forall>r\<in>set (tree s). iid r < next_iid s"
    and dp: "distinct (map row_pid (tree s))"
    and it: "\<And>q i. tree_items s q = Some i \<longleftrightarrow>
         (\<exists>r\<in>set (tree s). row_pid r = q \<and> parent r = None \<and> iid r = i)"
    by (simp_all add: view_inv_def)
  from lt have fresh: "next_iid s \<notin> iid ` set (tree s)" by auto
  have 1: "well_nested (rev (tree (insert_root p info s)))"
    using wn fresh by (simp add: t)
  have 2: "\<forall>r\<in>set (tree (insert_root p info s)). iid r < next_iid (insert_root p info s)"
    using lt by (auto simp: t n)
  have 3: "distinct (map row_pid (tree (insert_root p info s)))"
    using dp assms(2) by (simp add: t)
  have 4: "tree_items (insert_root p info s) q = Some i \<longleftrightarrow>
         (\<exists>r\<in>set (tree (insert_root p info s)). row_pid r = q \<and> parent r = None \<and> iid r = i)"
    for q i
  proof (cases "q = p")
    case True
    with assms(2) have "\<not> (\<exists>r\<in>set (tree s). row_pid r = q \<and> parent r = None \<and> iid r = i)"
      by auto
    with True show ?thesis by (auto simp: t ti)
  next
    case False
    then show ?thesis by (simp add: t ti it)
  qed
  from 1 2 3 4 show ?thesis
    unfolding view_inv_def by blast
qed

lemma view_inv_child:
  assumes "view_inv s" "p \<notin> row_pid ` set (tree s)" "tree_items s (ppid info) = Some i"
  shows "view_inv (snd (tree_insert (Some i) p info s))"
proof -
  let ?s' = "snd (tree_insert (Some i) p info s)"
  let ?new = "\<lparr>iid = next_iid s, parent = Some i, row_pid = p, row_info = info\<rparr>"
  have t: "tree ?s' = tree s @ [?new]"
    and n: "next_iid ?s' = Suc (next_iid s)"
    and ti: "tree_items ?s' = tree_items s"
    by (simp_all add: tree_insert_def)
  from assms(1) have wn: "well_nested (rev (tree s))"
    and lt: "\<forall>r\<in>set (tree s). iid r < next_iid s"
    and dp: "distinct (map row_pid (tree s))"
    and it: "\<And>q i. tree_items s q = Some i \<longleftrightarrow>
         (\<exists>r\<in>set (tree s). row_pid r = q \<and> parent r = None \<and> iid r = i)"
    by (simp_all add: view_inv_def)
  from lt have fresh: "next_iid s \<notin> iid ` set (tree s)" by auto
  from assms(3) it [of "ppid info" i]
  have par: "\<exists>r'\<in>set (tree s). iid r' = i \<and> parent r' = None \<and> row_pid r' = ppid info"
    by auto
  have 1: "well_nested (rev (tree ?s'))"
    using wn fresh par by (simp add: t)
  have 2: "\<forall>r\<in>set (tree ?s'). iid r < next_iid ?s'"
    using lt by (auto simp: t n)
  have 3: "distinct (map row_pid (tree ?s'))"
    using dp assms(2) by (simp add: t)
  have 4: "tree_items ?s' q = Some j \<longleftrightarrow>
         (\<exists>r\<in>set (tree ?s'). row_pid r = q \<and> parent r = None \<and> iid r = j)"
    for q j
    by (simp add: t ti it)
  from 1 2 3 4 show ?thesis
    unfolding view_inv_def by blast
qed

lemma view_inv_insert:
  assumes "view_inv s" "p \<notin> row_pid ` set (tree s)"
  shows "view_inv (insert_process_to_treeview p info s)"
  using assms view_inv_root [OF assms] view_inv_child [OF assms]
  by (simp add: insert_process_to_treeview_def split: option.splits)

lemma tree_insert_pids:
  "row_pid ` set (tree (insert_process_to_treeview p info s)) \<subseteq>
     insert p (row_pid ` set (tree s))"
  using tree_insert_process [of p info s] by auto

lemma search_loop_inv:
  assumes "distinct (map fst xs)" "view_inv s" "fst ` set xs \<inter> row_pid ` set (tree s) = {}"
  shows "view_inv (search_loop t xs s) \<and>
         row_pid ` set (tree (search_loop t xs s)) \<subseteq> row_pid ` set (tree s) \<union> fst ` set xs"
  using assms
proof (induction xs arbitrary: s)
  case Nil
  then show ?case by simp
next
  case (Cons e xs)
  obtain p info where e: "e = (p, info)" by (cases e)
  let ?s1 = "if str_in t (lower (name info)) then insert_process_to_treeview p info s else s"
  from Cons.prems e have p: "p \<notin> row_pid ` set (tree s)" "p \<notin> fst ` set xs"
    and d: "distinct (map fst xs)"
    and disj: "fst ` set xs \<inter> row_pid ` set (tree s) = {}"
    by auto
  have inv1: "view_inv ?s1"
    using Cons.prems(2) view_inv_insert [OF Cons.prems(2) p(1)] by simp
  have pids1: "row_pid ` set (tree ?s1) \<subseteq> insert p (row_pid ` set (tree s))"
    using tree_insert_pids [of p info s] by auto
  with p(2) disj have disj1: "fst ` set xs \<inter> row_pid ` set (tree ?s1) = {}"
    by blast
  have step: "search_loop t (e # xs) s = search_loop t xs ?s1"
    by (simp add: e)
  from Cons.IH [OF d inv1 disj1] have inv: "view_inv (search_loop t xs ?s1)"
    and sub: "row_pid ` set (tree (search_loop t xs ?s1)) \<subseteq>
        row_pid ` set (tree ?s1) \<union> fst ` set xs"
    by blast+
  have "fst ` set (e # xs) = insert p (fst ` set xs)" by (simp add: e)
  with sub pids1 have "row_pid ` set (tree (search_loop t xs ?s1)) \<subseteq>
      row_pid ` set (tree s) \<union> fst ` set (e # xs)"
    by blast
  with inv show ?case unfolding step by blast
qed

lemma filter_distinct_key:
  "distinct (map f xs) \<Longrightarrow> x \<in> set xs \<Longrightarrow> filter (\<lambda>y. f y = f x) xs = [x]"
proof (induction xs)
  case Nil
  then show ?case by simp
next
  case (Cons a xs)
  show ?case
  proof (cases "x = a")
    case True
    from Cons.prems(1) have "f a \<notin> f ` set xs" by simp
    then have "\<forall>y\<in>set xs. f y \<noteq> f a" by (metis imageI)
    then have "filter (\<lambda>y. f y = f a) xs = []" by (simp add: filter_empty_conv)
    with True show ?thesis by simp
  next
    case False
    with Cons.prems have "x \<in> set xs" "f a \<noteq> f x" by auto
    with Cons show ?thesis by simp
  qed
qed

lemma filter_absent_key:
  "k \<notin> f ` set xs \<Longrightarrow> filter (\<lambda>y. f y = k) xs = []"
  by (auto simp: filter_empty_conv)

text \<open>Where the row of a matching table entry is placed when children are shown.\<close>

lemma placement:
  assumes d: "distinct (map fst (process_data st))" and cv: "children_visible st"
    and split: "process_data st = before @ (p, info) # rest"
    and m: "str_in (lower (search_entry st)) (lower (name info))"
    and s: "s = search_loop (lower (search_entry st)) before (cleared st)"
  shows "view_inv (search_processes st) \<and> view_inv s \<and> p \<notin> row_pid ` set (tree s) \<and>
    (\<exists>r. r \<in> set (tree (search_processes st)) \<and> row_pid r = p \<and> row_info r = info \<and>
       iid r = next_iid s \<and>
       parent r =
         (if ppid info = 0 \<or> map_of (process_data st) (ppid info) = None then None
          else tree_items s (ppid info)))"
proof -
  let ?t = "lower (search_entry st)"
  have pd: "process_data s = process_data st" and cvs: "children_visible s"
    using cv by (simp_all add: s cleared_def)
  from d split have db: "distinct (map fst before)" and dr: "distinct (map fst rest)"
    and pb: "p \<notin> fst ` set before" and pr: "p \<notin> fst ` set rest"
    and br: "fst ` set before \<inter> fst ` set rest = {}"
    by auto
  have inv_s: "view_inv s" and pids_s: "row_pid ` set (tree s) \<subseteq> fst ` set before"
    using search_loop_inv [OF db view_inv_cleared, of st ?t]
    by (auto simp: s cleared_def)
  from pids_s pb have fresh: "p \<notin> row_pid ` set (tree s)" by auto
  let ?s1 = "insert_process_to_treeview p info s"
  have fin: "search_processes st = search_loop ?t rest ?s1"
    using m by (simp add: search_processes_def split search_loop_append s cleared_def)
  have inv1: "view_inv ?s1" by (rule view_inv_insert [OF inv_s fresh])
  have "row_pid ` set (tree ?s1) \<subseteq> insert p (fst ` set before)"
    using tree_insert_pids [of p info s] pids_s by auto
  with pr br have "fst ` set rest \<inter> row_pid ` set (tree ?s1) = {}" by blast
  from search_loop_inv [OF dr inv1 this, of ?t] have inv_f: "view_inv (search_processes st)"
    by (simp add: fin)
  let ?par = "if ppid info = 0 \<or> map_of (process_data st) (ppid info) = None then None
          else tree_items s (ppid info)"
  have t1: "tree ?s1 = tree s @ [\<lparr>iid = next_iid s, parent = ?par, row_pid = p, row_info = info\<rparr>]"
    using cvs pd
    by (auto simp: insert_process_to_treeview_def insert_root_def tree_insert_def
        split: option.splits)
  from search_loop_prefix [of ?t rest ?s1] obtain ext where
    "tree (search_processes st) = tree ?s1 @ ext"
    by (auto simp: fin)
  with t1 have "\<lparr>iid = next_iid s, parent = ?par, row_pid = p, row_info = info\<rparr>
      \<in> set (tree (search_processes st))"
    by simp
  then have "\<exists>r. r \<in> set (tree (search_processes st)) \<and> row_pid r = p \<and> row_info r = info \<and>
       iid r = next_iid s \<and> parent r = ?par"
    by (intro exI [of _ "\<lparr>iid = next_iid s, parent = ?par, row_pid = p, row_info = info\<rparr>"])
      simp
  with inv_f inv_s fresh show ?thesis by blast
qed

lemma filter_distinct_key_le:
  "distinct (map f xs) \<Longrightarrow> length (filter (\<lambda>y. f y = k) xs) \<le> 1"
proof (cases "k \<in> f ` set xs")
  case True
  assume d: "distinct (map f xs)"
  from True obtain x where "x \<in> set xs" "k = f x" by auto
  with filter_distinct_key [OF d this(1)] show ?thesis by simp
next
  case False
  then show ?thesis by (simp add: filter_absent_key)
qed

lemma view_inv_search_processes:
  assumes "distinct (map fst (process_data st))"
  shows "view_inv (search_processes st)"
  using search_loop_inv [OF assms view_inv_cleared, of st "lower (search_entry st)"]
  by (simp add: search_processes_def cleared_def)

lemma view_inv_depth:
  assumes "view_inv s" "r \<in> set (tree s)"
  shows "item_depth (rev (tree s)) (iid r) = (case parent r of None \<Rightarrow> 0 | Some q \<Rightarrow> 1)"
  using assms well_nested_depth [of "rev (tree s)" r]
  by (simp add: view_inv_def)

lemma str_in_Nil [simp]: "str_in [] b"
  by (cases b) simp_all

lemmas view_eval =
  render_def rendered_def search_processes_def init_app_def cleared_def chain_table_def
  self_table_def cycle_table_def proc_def insert_process_to_treeview_def insert_root_def
  tree_insert_def lower_def

section \<open>Nested view\<close>

text \<open>
  Claim C4, as the code has it. With children shown, distinct pid keys and a matching
  table entry \<open>(p, info)\<close>, the view has exactly one row for \<open>p\<close>. It is nested under
  the row of its parent (depth 1) exactly when \<open>ppid\<close> is not 0, is a key of the table,
  and the parent's row has already been emitted as a top-level row; otherwise it is a
  top-level row (depth 0). In particular a process whose parent was itself nested is a
  root: no row is deeper than 1, and the table \<open>{1: root, 2: ppid 1, 3: ppid 2}\<close> with
  the empty term gives 1 at depth 0, 2 at depth 1 and 3 at depth 0.
\<close>

theorem nested_placement:
  assumes "distinct (map fst (process_data st))" and "children_visible st"
    and "process_data st = before @ (p, info) # rest"
    and "str_in (lower (search_entry st)) (lower (name info))"
  shows
    "(\<exists>r. filter (\<lambda>r. row_pid r = p) (tree (search_processes st)) = [r] \<and> row_info r = info \<and>
       (if ppid info \<noteq> 0 \<and> map_of (process_data st) (ppid info) \<noteq> None \<and>
           (\<exists>q\<in>set (tree (search_loop (lower (search_entry st)) before (cleared st))).
              row_pid q = ppid info \<and> parent q = None)
        then (\<exists>q\<in>set (tree (search_loop (lower (search_entry st)) before (cleared st))).
                row_pid q = ppid info \<and> parent q = None \<and> parent r = Some (iid q)) \<and>
             item_depth (rev (tree (search_processes st))) (iid r) = 1
        else parent r = None \<and>
             item_depth (rev (tree (search_processes st))) (iid r) = 0)) \<and>
     (\<forall>r\<in>set (tree (search_processes st)).
        item_depth (rev (tree (search_processes st))) (iid r) \<le> 1) \<and>
     map (\<lambda>(p, i, d). (p, d)) (render chain_table [] True) = [(1, 0), (2, 1), (3, 0)]"
proof -
  define s where "s = search_loop (lower (search_entry st)) before (cleared st)"
  let ?final = "search_processes st"
  from placement [OF assms s_def] obtain r where
    inv_f: "view_inv ?final" and inv_s: "view_inv s" and
    r: "r \<in> set (tree ?final)" "row_pid r = p" "row_info r = info" and
    par: "parent r =
         (if ppid info = 0 \<or> map_of (process_data st) (ppid info) = None then None
          else tree_items s (ppid info))"
    by blast
  from inv_s have it: "\<And>q i. tree_items s q = Some i \<longleftrightarrow>
         (\<exists>r\<in>set (tree s). row_pid r = q \<and> parent r = None \<and> iid r = i)"
    by (simp add: view_inv_def)
  from inv_f have "distinct (map row_pid (tree ?final))" by (simp add: view_inv_def)
  from filter_distinct_key [OF this r(1)] r(2)
  have once: "filter (\<lambda>r. row_pid r = p) (tree ?final) = [r]" by simp
  have depth: "item_depth (rev (tree ?final)) (iid r) = (case parent r of None \<Rightarrow> 0 | Some q \<Rightarrow> 1)"
    by (rule view_inv_depth [OF inv_f r(1)])
  have place: "if ppid info \<noteq> 0 \<and> map_of (process_data st) (ppid info) \<noteq> None \<and>
           (\<exists>q\<in>set (tree s). row_pid q = ppid info \<and> parent q = None)
        then (\<exists>q\<in>set (tree s). row_pid q = ppid info \<and> parent q = None \<and> parent r = Some (iid q)) \<and>
             item_depth (rev (tree ?final)) (iid r) = 1
        else parent r = None \<and> item_depth (rev (tree ?final)) (iid r) = 0"
  proof (cases "ppid info \<noteq> 0 \<and> map_of (process_data st) (ppid info) \<noteq> None \<and>
           (\<exists>q\<in>set (tree s). row_pid q = ppid info \<and> parent q = None)")
    case True
    then obtain q where q: "q \<in> set (tree s)" "row_pid q = ppid info" "parent q = None"
      by blast
    with it [of "ppid info" "iid q"] have "tree_items s (ppid info) = Some (iid q)" by blast
    with True par have "parent r = Some (iid q)" by simp
    with q depth True show ?thesis by auto
  next
    case False
    have "parent r = None"
    proof (cases "ppid info = 0 \<or> map_of (process_data st) (ppid info) = None")
      case True
      with par show ?thesis by simp
    next
      case nz: False
      with False have "\<not> (\<exists>q\<in>set (tree s). row_pid q = ppid info \<and> parent q = None)"
        by blast
      have "tree_items s (ppid info) = None"
      proof (rule ccontr)
        assume "tree_items s (ppid info) \<noteq> None"
        then obtain a where "tree_items s (ppid info) = Some a" by auto
        then have "\<exists>r\<in>set (tree s). row_pid r = ppid info \<and> parent r = None \<and> iid r = a"
          by (rule iffD1 [OF it])
        with \<open>\<not> (\<exists>q\<in>set (tree s). row_pid q = ppid info \<and> parent q = None)\<close>
        show False by blast
      qed
      with par nz show ?thesis by simp
    qed
    with depth False show ?thesis by simp
  qed
  have le: "\<forall>r\<in>set (tree ?final). item_depth (rev (tree ?final)) (iid r) \<le> 1"
    using view_inv_depth [OF inv_f] by (auto split: option.splits)
  have ex: "map (\<lambda>(p, i, d). (p, d)) (render chain_table [] True) = [(1, 0), (2, 1), (3, 0)]"
    by (simp add: render_def rendered_def search_processes_def init_app_def chain_table_def
        proc_def insert_process_to_treeview_def insert_root_def tree_insert_def lower_def)
  from once r(3) place le ex show ?thesis
    unfolding s_def by blast
qed

theorem nested_placement_witness:
  "\<exists>r. filter (\<lambda>r. row_pid r = 2) (tree (search_processes (init_app chain_table [] True))) = [r] \<and>
       row_info r = proc ''bash'' 2 1 \<and>
       item_depth (rev (tree (search_processes (init_app chain_table [] True)))) (iid r) = 1"
proof -
  let ?st = "init_app chain_table [] True"
  have h1: "distinct (map fst (process_data ?st))"
    by (simp add: init_app_def chain_table_def)
  have h2: "children_visible ?st"
    by (simp add: init_app_def)
  have h3: "process_data ?st =
      [(1, proc ''init'' 1 0)] @ (2, proc ''bash'' 2 1) # [(3, proc ''vim'' 3 2)]"
    by (simp add: init_app_def chain_table_def)
  have h4: "str_in (lower (search_entry ?st)) (lower (name (proc ''bash'' 2 1)))"
    by (simp add: init_app_def lower_def)
  have c: "ppid (proc ''bash'' 2 1) \<noteq> 0 \<and>
      map_of (process_data ?st) (ppid (proc ''bash'' 2 1)) \<noteq> None \<and>
      (\<exists>q\<in>set (tree (search_loop (lower (search_entry ?st)) [(1, proc ''init'' 1 0)]
                       (cleared ?st))).
         row_pid q = ppid (proc ''bash'' 2 1) \<and> parent q = None)"
    by (simp add: view_eval)
  from nested_placement [OF h1 h2 h3 h4, THEN conjunct1] obtain r where
    r: "filter (\<lambda>r. row_pid r = 2) (tree (search_processes ?st)) = [r]"
      "row_info r = proc ''bash'' 2 1"
      "if ppid (proc ''bash'' 2 1) \<noteq> 0 \<and>
          map_of (process_data ?st) (ppid (proc ''bash'' 2 1)) \<noteq> None \<and>
          (\<exists>q\<in>set (tree (search_loop (lower (search_entry ?st)) [(1, proc ''init'' 1 0)]
                           (cleared ?st))).
             row_pid q = ppid (proc ''bash'' 2 1) \<and> parent q = None)
       then (\<exists>q\<in>set (tree (search_loop (lower (search_entry ?st)) [(1, proc ''init'' 1 0)]
                             (cleared ?st))).
               row_pid q = ppid (proc ''bash'' 2 1) \<and> parent q = None \<and>
               parent r = Some (iid q)) \<and>
            item_depth (rev (tree (search_processes ?st))) (iid r) = 1
       else parent r = None \<and> item_depth (rev (tree (search_processes ?st))) (iid r) = 0"
    by (elim exE conjE)
  have "item_depth (rev (tree (search_processes ?st))) (iid r) = 1"
    by (rule conjunct2 [OF r(3) [unfolded if_P [OF c]]])
  with r(1,2) show ?thesis by blast
qed

text \<open>
  The claim as worded fails on its own example: when pid 3 is inserted, its parent 2 is
  in the table and the row of 2 has already been emitted (nested under 1), yet 3 is
  not nested.
\<close>

theorem nested_placement_counterexample:
  "\<not> ((\<exists>r\<in>set (tree (search_processes (init_app chain_table [] True))).
          row_pid r = 3 \<and> parent r \<noteq> None) \<longleftrightarrow>
       (map_of chain_table (ppid (proc ''vim'' 3 2)) \<noteq> None \<and>
        (\<exists>q\<in>set (tree (search_loop (lower [])
                          [(1, proc ''init'' 1 0), (2, proc ''bash'' 2 1)]
                          (cleared (init_app chain_table [] True)))).
           row_pid q = ppid (proc ''vim'' 3 2))))"
  by (simp add: view_eval)

text \<open>
  Claim C5, as the code has it. Rendering is one pass over the table (\<open>search_loop\<close>
  is structurally recursive and never follows a \<open>ppid\<close> link), and with distinct pid
  keys no pid is shown more than once, in either mode. With children shown, a matching
  process whose \<open>ppid\<close> is its own pid is shown exactly once, as a root at depth 0.
\<close>

theorem self_parent_rendered_once_as_root:
  assumes "distinct (map fst (process_data st))"
  shows "length (filter (\<lambda>r. row_pid r = p) (tree (search_processes st))) \<le> 1 \<and>
     ((p, info) \<in> set (process_data st) \<and>
      str_in (lower (search_entry st)) (lower (name info)) \<and>
      children_visible st \<and> ppid info = p \<longrightarrow>
        filter (\<lambda>(q, i, d). q = p) (rendered (search_processes st)) = [(p, info, 0)])"
proof -
  let ?final = "search_processes st"
  have inv_f: "view_inv ?final" by (rule view_inv_search_processes [OF assms])
  then have dp: "distinct (map row_pid (tree ?final))" by (simp add: view_inv_def)
  have most: "length (filter (\<lambda>r. row_pid r = p) (tree ?final)) \<le> 1"
    by (rule filter_distinct_key_le [OF dp])
  have once: "filter (\<lambda>(q, i, d). q = p) (rendered ?final) = [(p, info, 0)]"
    if mem: "(p, info) \<in> set (process_data st)"
      and m: "str_in (lower (search_entry st)) (lower (name info))"
      and cv: "children_visible st" and self: "ppid info = p"
  proof -
    from mem obtain before rest where split: "process_data st = before @ (p, info) # rest"
      by (auto dest: split_list)
    define s where "s = search_loop (lower (search_entry st)) before (cleared st)"
    from placement [OF assms cv split m s_def] obtain r where
      inv_s: "view_inv s" and fresh: "p \<notin> row_pid ` set (tree s)" and
      r: "r \<in> set (tree ?final)" "row_pid r = p" "row_info r = info" and
      par: "parent r =
         (if ppid info = 0 \<or> map_of (process_data st) (ppid info) = None then None
          else tree_items s (ppid info))"
      by blast
    from inv_s have it: "\<And>q i. tree_items s q = Some i \<longleftrightarrow>
         (\<exists>r\<in>set (tree s). row_pid r = q \<and> parent r = None \<and> iid r = i)"
      by (simp add: view_inv_def)
    have "tree_items s p = None"
    proof (rule ccontr)
      assume "tree_items s p \<noteq> None"
      then obtain a where "tree_items s p = Some a" by auto
      then have "\<exists>r\<in>set (tree s). row_pid r = p \<and> parent r = None \<and> iid r = a"
        by (rule iffD1 [OF it])
      with fresh show False by auto
    qed
    with par self have root: "parent r = None" by simp
    with view_inv_depth [OF inv_f r(1)]
    have depth: "item_depth (rev (tree ?final)) (iid r) = 0" by simp
    from filter_distinct_key [OF dp r(1)] r(2)
    have f: "filter (\<lambda>r. row_pid r = p) (tree ?final) = [r]" by simp
    have "filter (\<lambda>(q, i, d). q = p) (rendered ?final) =
        map (\<lambda>r. (row_pid r, row_info r, item_depth (rev (tree ?final)) (iid r)))
          (filter (\<lambda>r. row_pid r = p) (tree ?final))"
      by (simp add: rendered_def filter_map comp_def)
    with f r depth show ?thesis by simp
  qed
  from most once show ?thesis by blast
qed

theorem self_parent_rendered_once_as_root_witness:
  "length (filter (\<lambda>r. row_pid r = 7) (tree (search_processes (init_app self_table [] True)))) \<le> 1 \<and>
   filter (\<lambda>(q, i, d). q = 7) (rendered (search_processes (init_app self_table [] True))) =
     [(7, proc ''loop'' 7 7, 0)]"
proof -
  let ?st = "init_app self_table [] True"
  have h: "distinct (map fst (process_data ?st))"
    by (simp add: init_app_def self_table_def)
  have c: "(7, proc ''loop'' 7 7) \<in> set (process_data ?st) \<and>
      str_in (lower (search_entry ?st)) (lower (name (proc ''loop'' 7 7))) \<and>
      children_visible ?st \<and> ppid (proc ''loop'' 7 7) = 7"
    by (simp add: init_app_def self_table_def proc_def lower_def)
  note T = self_parent_rendered_once_as_root [OF h, of 7 "proc ''loop'' 7 7"]
  from T [THEN conjunct1] T [THEN conjunct2, THEN mp, OF c] show ?thesis
    by (rule conjI)
qed

text \<open>
  The claim as worded fails: with children hidden a process that is its own parent is
  not shown at all, and of two processes that are each other's parent the second is
  nested under the first at depth 1.
\<close>

theorem self_parent_rendered_once_as_root_counterexample:
  "render self_table [] False = [] \<and>
   map (\<lambda>(p, i, d). (p, d)) (render cycle_table [] True) = [(5, 0), (6, 1)]"
  by (simp add: view_eval)

section \<open>Flat view\<close>

lemma flat_insert:
  assumes "\<not> children_visible s"
  shows "map (\<lambda>r. (row_pid r, row_info r, parent r)) (tree (insert_process_to_treeview p info s)) =
     map (\<lambda>r. (row_pid r, row_info r, parent r)) (tree s) @
       (if ppid info = 0 \<or> map_of (process_data s) (ppid info) = None
        then [(p, info, None)] else [])"
  using assms
  by (simp add: insert_process_to_treeview_def insert_root_def tree_insert_def)

lemma flat_loop:
  assumes "\<not> children_visible s"
  shows "map (\<lambda>r. (row_pid r, row_info r, parent r)) (tree (search_loop t xs s)) =
     map (\<lambda>r. (row_pid r, row_info r, parent r)) (tree s) @
       map (\<lambda>(p, info). (p, info, None))
         (filter (\<lambda>(p, info). str_in t (lower (name info)) \<and>
                    (ppid info = 0 \<or> map_of (process_data s) (ppid info) = None)) xs)"
  using assms
proof (induction xs arbitrary: s)
  case Nil
  show ?case by simp
next
  case (Cons e xs)
  obtain p info where e: "e = (p, info)" by (cases e)
  show ?case
  proof (cases "str_in t (lower (name info))")
    case True
    have "\<not> children_visible (insert_process_to_treeview p info s)"
      using Cons.prems by simp
    from Cons.IH [OF this] flat_insert [OF Cons.prems, of p info] True e show ?thesis
      by simp
  next
    case False
    with Cons.IH [OF Cons.prems] e show ?thesis by simp
  qed
qed

text \<open>
  Claim C1, as the code has it. With children hidden the view is a flat list with one
  row at depth 0, in table order, for every matching process whose \<open>ppid\<close> is 0 or is
  not a key of the table; a matching process whose \<open>ppid\<close> is another key of the table
  is a child and is left out.
\<close>

theorem flat_view_lists_display_roots:
  assumes "\<not> children_visible st"
  shows "rendered (search_processes st) =
     map (\<lambda>(p, info). (p, info, 0))
       (filter (\<lambda>(p, info). str_in (lower (search_entry st)) (lower (name info)) \<and>
                  (ppid info = 0 \<or> map_of (process_data st) (ppid info) = None))
          (process_data st))"
proof -
  let ?final = "search_processes st"
  let ?sel = "filter (\<lambda>(p, info). str_in (lower (search_entry st)) (lower (name info)) \<and>
                  (ppid info = 0 \<or> map_of (process_data st) (ppid info) = None))
          (process_data st)"
  have rows: "map (\<lambda>r. (row_pid r, row_info r, parent r)) (tree ?final) =
      map (\<lambda>(p, info). (p, info, None)) ?sel"
    using flat_loop [of "cleared st" "lower (search_entry st)" "process_data st"] assms
    by (simp add: search_processes_def cleared_def)
  have "map (\<lambda>r. parent r) (tree ?final) = map (\<lambda>x. None) ?sel"
  proof -
    have "map (\<lambda>r. parent r) (tree ?final) =
        map (\<lambda>(a, b, c). c) (map (\<lambda>r. (row_pid r, row_info r, parent r)) (tree ?final))"
      by (simp add: comp_def)
    also have "\<dots> = map (\<lambda>x. None) ?sel"
      unfolding rows by (simp add: comp_def split_def)
    finally show ?thesis .
  qed
  then have "set (map (\<lambda>r. parent r) (tree ?final)) \<subseteq> {None}"
    by auto
  then have roots: "\<forall>r\<in>set (tree ?final). parent r = None"
    by auto
  then have "\<forall>r\<in>set (rev (tree ?final)). parent r = None"
    by simp
  then have depth: "item_depth (rev (tree ?final)) i = 0" for i
    by (rule item_depth_all_roots)
  have "rendered ?final =
      map (\<lambda>(a, b, c). (a, b, 0)) (map (\<lambda>r. (row_pid r, row_info r, parent r)) (tree ?final))"
    by (simp add: rendered_def depth comp_def)
  also have "\<dots> = map (\<lambda>(p, info). (p, info, 0)) ?sel"
    unfolding rows by (simp add: comp_def split_def)
  finally show ?thesis .
qed

theorem flat_view_lists_display_roots_witness:
  "render chain_table [] False = [(1, proc ''init'' 1 0, 0)]"
proof -
  have h: "\<not> children_visible (init_app chain_table [] False)"
    by (simp add: init_app_def)
  show ?thesis
    unfolding render_def flat_view_lists_display_roots [OF h]
    by (simp add: init_app_def chain_table_def proc_def lower_def)
qed

text \<open>
  The claim as worded fails: with the empty term every process of the chain table
  matches, but only pid 1 is shown.
\<close>

theorem flat_view_lists_display_roots_counterexample:
  "render chain_table [] False \<noteq>
     map (\<lambda>(p, info). (p, info, 0))
       (filter (\<lambda>(p, info). str_in (lower []) (lower (name info))) chain_table)"
  by (simp add: view_eval)

end
